theory Spec2Isabelle
  imports Main
begin

section \<open>Action history: the progress digest of an agent's episodes\<close>

text \<open>
  A shallow embedding of \<^verbatim>\<open>forge/components/action_history/action_history.py\<close>:
  the method \<^verbatim>\<open>_compile_progress\<close>, which renders the episodes of an agent's history
  into one text under an optional token budget, and \<^verbatim>\<open>get_messages\<close>, which wraps
  that text into a system message.
\<close>

subsection \<open>Python strings and integers\<close>

text \<open>\<^verbatim>\<open>str(k)\<close> for an integer: its decimal digits, with a minus sign when negative.\<close>

definition digit_char :: "nat \<Rightarrow> char" where
  "digit_char d = ''0123456789'' ! (d mod 10)"

fun str_nat :: "nat \<Rightarrow> string" where
  "str_nat n = (if n < 10 then [digit_char n] else str_nat (n div 10) @ [digit_char (n mod 10)])"

declare str_nat.simps [simp del]

definition str_int :: "int \<Rightarrow> string" where
  "str_int k = (if k < 0 then CHR ''-'' # str_nat (nat (- k)) else str_nat (nat k))"

text \<open>
  \<^verbatim>\<open>str.strip()\<close> without argument removes leading and trailing whitespace. The
  whitespace characters below 256 are TAB, LF, VT, FF, CR, FS, GS, RS, US, space,
  NEL and the no-break space.
\<close>

definition is_space :: "char \<Rightarrow> bool" where
  "is_space c = (of_char c \<in> {9, 10, 11, 12, 13, 28, 29, 30, 31, 32, 133, 160 :: nat})"

definition strip :: "string \<Rightarrow> string" where
  "strip s = rev (dropWhile is_space (rev (dropWhile is_space s)))"

text \<open>\<^verbatim>\<open>sep.join(xs)\<close>.\<close>

fun str_join :: "string \<Rightarrow> string list \<Rightarrow> string" where
  "str_join sep [] = []"
| "str_join sep [x] = x"
| "str_join sep (x # y # ys) = x @ sep @ str_join sep (y # ys)"

definition newline :: char where
  "newline = CHR 0x0A"

text \<open>
  Truthiness of an \<^verbatim>\<open>Optional[int]\<close>: \<^verbatim>\<open>None\<close> and \<^verbatim>\<open>0\<close> are false. An
  \<^verbatim>\<open>Optional[Callable]\<close> is true exactly when it is not \<^verbatim>\<open>None\<close>.
\<close>

definition truthy_int :: "int option \<Rightarrow> bool" where
  "truthy_int v = (case v of None \<Rightarrow> False | Some k \<Rightarrow> k \<noteq> 0)"

definition truthy_fn :: "'f option \<Rightarrow> bool" where
  "truthy_fn f = (case f of None \<Rightarrow> False | Some _ \<Rightarrow> True)"

subsection \<open>Data model\<close>

text \<open>
  An episode carries an action, the result of executing it (absent until then) and an
  optional summary. Actions and results are opaque here; the rendering
  \<^verbatim>\<open>Episode.format()\<close> lives in \<^verbatim>\<open>model.py\<close> and is a parameter \<open>fmt\<close> of the
  functions below, as is \<^verbatim>\<open>indent\<close> of \<^verbatim>\<open>forge.llm.prompting.utils\<close>.
\<close>

record ('a, 'r) Episode =
  action :: 'a
  result :: "'r option"
  summary :: "string option"

record ('a, 'r) EpisodicActionHistory =
  episodes :: "('a, 'r) Episode list"

record ActionHistoryConfiguration =
  cfg_max_tokens :: int
  browse_spacy_language_model :: string

definition default_configuration :: ActionHistoryConfiguration where
  "default_configuration =
     \<lparr>cfg_max_tokens = 1024, browse_spacy_language_model = ''en_core_web_sm''\<rparr>"

record ('a, 'r, 'p) ActionHistoryComponent =
  event_history :: "('a, 'r) EpisodicActionHistory"
  self_count_tokens :: "string \<Rightarrow> int"
  model_name :: string
  llm_provider :: 'p
  config :: ActionHistoryConfiguration

datatype error = ValueError string

datatype Role = USER | SYSTEM | ASSISTANT | TOOL | FUNCTION

record ChatMessage =
  role :: Role
  content :: string

text \<open>
  Modelled from the spec: \<^verbatim>\<open>ChatMessage.system\<close> of \<^verbatim>\<open>forge.llm.providers\<close> is not
  among the sources; the digest "is exposed as a single informational message", a
  message of the system role holding the given text.
\<close>

definition ChatMessage_system :: "string \<Rightarrow> ChatMessage" where
  "ChatMessage_system text = \<lparr>role = SYSTEM, content = text\<rparr>"

subsection \<open>The digest compiler\<close>

text \<open>
  The local state of \<^verbatim>\<open>_compile_progress\<close>: the list object it was handed, and the
  two variables the loop updates.
\<close>

record ('a, 'r) frame =
  episode_history :: "('a, 'r) Episode list"
  steps :: "string list"
  tokens :: int

text \<open>Lines 69 to 72: full format for the latest 4 steps, summary or format for older ones.\<close>

definition step_content ::
  "(('a, 'r) Episode \<Rightarrow> string) \<Rightarrow> (string \<Rightarrow> nat \<Rightarrow> string) \<Rightarrow> nat \<Rightarrow> ('a, 'r) Episode \<Rightarrow> string" where
  "step_content fmt indent i episode =
     (if i < 4 \<or> summary episode = None then strip (indent (fmt episode) 2)
      else the (summary episode))"

text \<open>Line 74: \<^verbatim>\<open>f"* Step {n_episodes - i}: {step_content}"\<close>.\<close>

definition step_text ::
  "(('a, 'r) Episode \<Rightarrow> string) \<Rightarrow> (string \<Rightarrow> nat \<Rightarrow> string) \<Rightarrow> nat \<Rightarrow> nat \<Rightarrow> ('a, 'r) Episode \<Rightarrow> string" where
  "step_text fmt indent n_episodes i episode =
     ''* Step '' @ str_int (int n_episodes - int i) @ '': '' @ step_content fmt indent i episode"

text \<open>
  The \<^verbatim>\<open>for\<close> loop of lines 67 to 82 over the pairs of \<^verbatim>\<open>enumerate(reversed(...))\<close>
  still to visit. \<^verbatim>\<open>break\<close> returns the frame as it is; \<^verbatim>\<open>steps.insert(0, step)\<close>
  puts the step in front.
\<close>

fun scan ::
  "(('a, 'r) Episode \<Rightarrow> string) \<Rightarrow> (string \<Rightarrow> nat \<Rightarrow> string) \<Rightarrow> int option \<Rightarrow> (string \<Rightarrow> int) option
   \<Rightarrow> nat \<Rightarrow> (nat \<times> ('a, 'r) Episode) list \<Rightarrow> ('a, 'r) frame \<Rightarrow> ('a, 'r) frame" where
  "scan fmt indent max_tokens count_tokens n_episodes [] fr = fr"
| "scan fmt indent max_tokens count_tokens n_episodes ((i, episode) # rest) fr =
     (let step = step_text fmt indent n_episodes i episode in
      if truthy_int max_tokens \<and> truthy_fn count_tokens then
        (let step_tokens = (the count_tokens) step in
         if tokens fr + step_tokens > the max_tokens then fr
         else scan fmt indent max_tokens count_tokens n_episodes rest
                (fr\<lparr>tokens := tokens fr + step_tokens, steps := step # steps fr\<rparr>))
      else scan fmt indent max_tokens count_tokens n_episodes rest
             (fr\<lparr>steps := step # steps fr\<rparr>))"

text \<open>The frame when \<^verbatim>\<open>_compile_progress\<close> returns (for a call that does not raise).\<close>

definition final_frame ::
  "(('a, 'r) Episode \<Rightarrow> string) \<Rightarrow> (string \<Rightarrow> nat \<Rightarrow> string) \<Rightarrow> ('a, 'r) Episode list \<Rightarrow> int option
   \<Rightarrow> (string \<Rightarrow> int) option \<Rightarrow> ('a, 'r) frame" where
  "final_frame fmt indent history max_tokens count_tokens =
     scan fmt indent max_tokens count_tokens (length history)
       (enumerate 0 (rev history))
       \<lparr>episode_history = history, steps = [], tokens = 0\<rparr>"

definition compile_steps ::
  "(('a, 'r) Episode \<Rightarrow> string) \<Rightarrow> (string \<Rightarrow> nat \<Rightarrow> string) \<Rightarrow> ('a, 'r) Episode list \<Rightarrow> int option
   \<Rightarrow> (string \<Rightarrow> int) option \<Rightarrow> string list" where
  "compile_steps fmt indent history max_tokens count_tokens =
     steps (final_frame fmt indent history max_tokens count_tokens)"

definition compile_progress ::
  "(('a, 'r) Episode \<Rightarrow> string) \<Rightarrow> (string \<Rightarrow> nat \<Rightarrow> string) \<Rightarrow> ('a, 'r) Episode list \<Rightarrow> int option
   \<Rightarrow> (string \<Rightarrow> int) option \<Rightarrow> error + string" where
  "compile_progress fmt indent history max_tokens count_tokens =
     (if truthy_int max_tokens \<and> \<not> truthy_fn count_tokens
      then Inl (ValueError ''count_tokens is required if max_tokens is set'')
      else Inr (str_join [newline, newline]
                  (compile_steps fmt indent history max_tokens count_tokens)))"

text \<open>
  \<^verbatim>\<open>get_messages\<close>: the messages the generator yields, in order, or the error that
  \<^verbatim>\<open>_compile_progress\<close> raised.
\<close>

definition progress_header :: string where
  "progress_header = ''## Progress on your Task so far'' @ [newline, newline]"

definition get_messages ::
  "(('a, 'r) Episode \<Rightarrow> string) \<Rightarrow> (string \<Rightarrow> nat \<Rightarrow> string) \<Rightarrow> ('a, 'r, 'p) ActionHistoryComponent
   \<Rightarrow> error + ChatMessage list" where
  "get_messages fmt indent self =
     (case compile_progress fmt indent (episodes (event_history self))
             (Some (cfg_max_tokens (config self))) (Some (self_count_tokens self)) of
        Inl e \<Rightarrow> Inl e
      | Inr progress \<Rightarrow>
          if progress \<noteq> [] then Inr [ChatMessage_system (progress_header @ progress)]
          else Inr [])"

subsection \<open>The digest compiler over an object store\<close>

text \<open>
  The same method with Python's objects made explicit, to state what a call writes. The
  store maps addresses to objects: episodes, the list of episode references that
  \<^verbatim>\<open>episode_history\<close> names, lists of strings such as \<^verbatim>\<open>steps\<close>, and any other object
  (the component \<^verbatim>\<open>self\<close> among them). A new object gets the next unused address.
\<close>

type_synonym addr = nat

datatype ('a, 'r, 'o) object =
  Episode_object "('a, 'r) Episode"
| Episode_list "addr list"
| String_list "string list"
| Other_object 'o

record ('a, 'r, 'o) heap =
  cells :: "addr \<rightharpoonup> ('a, 'r, 'o) object"
  next_addr :: addr

definition alloc :: "('a, 'r, 'o) heap \<Rightarrow> ('a, 'r, 'o) object \<Rightarrow> addr \<times> ('a, 'r, 'o) heap" where
  "alloc h v = (next_addr h, h\<lparr>cells := (cells h)(next_addr h \<mapsto> v), next_addr := Suc (next_addr h)\<rparr>)"

text \<open>Reading an object of the expected class; \<open>None\<close> where Python would raise a type error.\<close>

definition get_episode_list :: "('a, 'r, 'o) heap \<Rightarrow> addr \<Rightarrow> addr list option" where
  "get_episode_list h p = (case cells h p of Some (Episode_list refs) \<Rightarrow> Some refs | _ \<Rightarrow> None)"

definition get_episode :: "('a, 'r, 'o) heap \<Rightarrow> addr \<Rightarrow> ('a, 'r) Episode option" where
  "get_episode h p = (case cells h p of Some (Episode_object episode) \<Rightarrow> Some episode | _ \<Rightarrow> None)"

definition get_string_list :: "('a, 'r, 'o) heap \<Rightarrow> addr \<Rightarrow> string list option" where
  "get_string_list h p = (case cells h p of Some (String_list ss) \<Rightarrow> Some ss | _ \<Rightarrow> None)"

text \<open>\<^verbatim>\<open>steps.insert(0, step)\<close>: the list object at the address is updated in place.\<close>

definition insert_front :: "('a, 'r, 'o) heap \<Rightarrow> addr \<Rightarrow> string \<Rightarrow> ('a, 'r, 'o) heap option" where
  "insert_front h p s =
     (case get_string_list h p of
        None \<Rightarrow> None
      | Some ss \<Rightarrow> Some (h\<lparr>cells := (cells h)(p \<mapsto> String_list (s # ss))\<rparr>))"

text \<open>
  The loop of lines 67 to 82. The iterator of \<^verbatim>\<open>reversed(episode_history)\<close> holds a
  position \<open>k\<close> and reads the list object anew at every step: it yields the element at index
  \<open>k - 1\<close> while that index is within the list, and is exhausted otherwise. \<open>spent\<close> is
  the local \<^verbatim>\<open>tokens\<close>.
\<close>

fun scan_heap ::
  "(('a, 'r) Episode \<Rightarrow> string) \<Rightarrow> (string \<Rightarrow> nat \<Rightarrow> string) \<Rightarrow> int option \<Rightarrow> (string \<Rightarrow> int) option
   \<Rightarrow> nat \<Rightarrow> addr \<Rightarrow> addr \<Rightarrow> nat \<Rightarrow> nat \<Rightarrow> int \<Rightarrow> ('a, 'r, 'o) heap \<Rightarrow> ('a, 'r, 'o) heap option" where
  "scan_heap fmt indent max_tokens count_tokens n_episodes history_ref steps_ref 0 i spent h = Some h"
| "scan_heap fmt indent max_tokens count_tokens n_episodes history_ref steps_ref (Suc k) i spent h =
     (case get_episode_list h history_ref of
        None \<Rightarrow> None
      | Some refs \<Rightarrow>
          if k < length refs then
            (case get_episode h (refs ! k) of
               None \<Rightarrow> None
             | Some episode \<Rightarrow>
                 (let step = step_text fmt indent n_episodes i episode in
                  if truthy_int max_tokens \<and> truthy_fn count_tokens then
                    (let step_tokens = (the count_tokens) step in
                     if spent + step_tokens > the max_tokens then Some h
                     else (case insert_front h steps_ref step of
                             None \<Rightarrow> None
                           | Some h' \<Rightarrow>
                               scan_heap fmt indent max_tokens count_tokens n_episodes history_ref
                                 steps_ref k (Suc i) (spent + step_tokens) h'))
                  else (case insert_front h steps_ref step of
                          None \<Rightarrow> None
                        | Some h' \<Rightarrow>
                            scan_heap fmt indent max_tokens count_tokens n_episodes history_ref
                              steps_ref k (Suc i) spent h')))
          else Some h)"

text \<open>
  Lines 60 to 84: the guard, \<^verbatim>\<open>steps = []\<close> as a new list object, the loop, the join.
  The result is the value returned or the error raised, with the store after the call.
\<close>

definition compile_progress_heap ::
  "(('a, 'r) Episode \<Rightarrow> string) \<Rightarrow> (string \<Rightarrow> nat \<Rightarrow> string) \<Rightarrow> ('a, 'r, 'o) heap \<Rightarrow> addr \<Rightarrow> addr
   \<Rightarrow> int option \<Rightarrow> (string \<Rightarrow> int) option \<Rightarrow> ((error + string) \<times> ('a, 'r, 'o) heap) option" where
  "compile_progress_heap fmt indent h self history_ref max_tokens count_tokens =
     (if truthy_int max_tokens \<and> \<not> truthy_fn count_tokens
      then Some (Inl (ValueError ''count_tokens is required if max_tokens is set''), h)
      else
        (let (steps_ref, h1) = alloc h (String_list []) in
         case get_episode_list h1 history_ref of
           None \<Rightarrow> None
         | Some refs \<Rightarrow>
             (case scan_heap fmt indent max_tokens count_tokens (length refs) history_ref steps_ref
                     (length refs) 0 0 h1 of
                None \<Rightarrow> None
              | Some h2 \<Rightarrow>
                  (case get_string_list h2 steps_ref of
                     None \<Rightarrow> None
                   | Some ss \<Rightarrow> Some (Inr (str_join [newline, newline] ss), h2)))))"

subsection \<open>Notions used to state the properties\<close>

text \<open>
  The labelled steps of a history in scan order, newest first: what the loop renders
  when nothing stops it.
\<close>

definition labelled_steps ::
  "(('a, 'r) Episode \<Rightarrow> string) \<Rightarrow> (string \<Rightarrow> nat \<Rightarrow> string) \<Rightarrow> ('a, 'r) Episode list \<Rightarrow> string list" where
  "labelled_steps fmt indent history =
     map (\<lambda>(i, episode). step_text fmt indent (length history) i episode)
       (enumerate 0 (rev history))"

text \<open>
  How many leading steps of a list fit a budget \<open>m\<close> when the running total starts at
  \<open>t\<close>: counting stops at the first step that would push the total over \<open>m\<close>.
\<close>

fun kept_count :: "(string \<Rightarrow> int) \<Rightarrow> int \<Rightarrow> int \<Rightarrow> string list \<Rightarrow> nat" where
  "kept_count c m t [] = 0"
| "kept_count c m t (s # ss) = (if t + c s > m then 0 else Suc (kept_count c m (t + c s) ss))"

text \<open>The running total after the first \<open>k\<close> steps of a list.\<close>

definition running_total :: "(string \<Rightarrow> int) \<Rightarrow> string list \<Rightarrow> nat \<Rightarrow> int" where
  "running_total c ss k = sum_list (map c (take k ss))"

subsection \<open>Concrete inputs\<close>

text \<open>
  Modelled from the spec: \<^verbatim>\<open>indent\<close> of \<^verbatim>\<open>forge.llm.prompting.utils\<close> is not among
  the sources; the full rendering is "re-indented by a fixed indent for visual nesting":
  the indentation is put before the text and after each line break.
\<close>

definition indent_spaces :: "string \<Rightarrow> nat \<Rightarrow> string" where
  "indent_spaces text k =
     replicate k CHR '' '' @
     concat (map (\<lambda>c. if c = newline then newline # replicate k CHR '' '' else [c]) text)"

text \<open>Episodes whose action is a number, rendered in full as \<open>full\<close> and summarised as \<open>sum\<close>.\<close>

definition demo_format :: "(nat, string) Episode \<Rightarrow> string" where
  "demo_format episode = ''full''"

definition demo_episode :: "nat \<Rightarrow> (nat, string) Episode" where
  "demo_episode k = \<lparr>action = k, result = Some ''ok'', summary = Some ''sum''\<rparr>"

definition pending_episode :: "nat \<Rightarrow> (nat, string) Episode" where
  "pending_episode k = \<lparr>action = k, result = None, summary = None\<rparr>"

definition six_episodes :: "(nat, string) Episode list" where
  "six_episodes = map demo_episode [1, 2, 3, 4, 5, 6]"

definition two_episodes :: "(nat, string) Episode list" where
  "two_episodes = [demo_episode 1, pending_episode 2]"

text \<open>A counter under which a full-format step costs 30 tokens and a summary 5.\<close>

definition tier_cost :: "string \<Rightarrow> int" where
  "tier_cost s = (if s \<noteq> [] \<and> last s = CHR ''l'' then 30 else 5)"

text \<open>A counter that charges one token per character.\<close>

definition char_cost :: "string \<Rightarrow> int" where
  "char_cost s = int (length s)"

definition demo_component :: "(nat, string) Episode list \<Rightarrow> int \<Rightarrow> (nat, string, unit) ActionHistoryComponent" where
  "demo_component history budget =
     \<lparr>event_history = \<lparr>episodes = history\<rparr>, self_count_tokens = char_cost,
      model_name = ''gpt'', llm_provider = (),
      config = default_configuration\<lparr>cfg_max_tokens := budget\<rparr>\<rparr>"

text \<open>A store holding a component, the list of two episodes and the episodes.\<close>

definition demo_heap :: "(nat, string, string) heap" where
  "demo_heap =
     \<lparr>cells = [0 \<mapsto> Other_object ''component'', 1 \<mapsto> Episode_list [2, 3],
              2 \<mapsto> Episode_object (demo_episode 1), 3 \<mapsto> Episode_object (pending_episode 2)],
      next_addr = 4\<rparr>"

section \<open>Properties\<close>

subsection \<open>The scan\<close>

lemma scan_unbounded:
  "\<not> (truthy_int mt \<and> truthy_fn ct) \<Longrightarrow>
   scan fmt ind mt ct n xs fr =
     fr\<lparr>steps := rev (map (\<lambda>(i, e). step_text fmt ind n i e) xs) @ steps fr\<rparr>"
  by (induction xs arbitrary: fr) auto

lemma scan_budget:
  "m \<noteq> 0 \<Longrightarrow>
   scan fmt ind (Some m) (Some c) n xs fr =
     (let ss = map (\<lambda>(i, e). step_text fmt ind n i e) xs;
          k = kept_count c m (tokens fr) ss
      in fr\<lparr>tokens := tokens fr + running_total c ss k, steps := rev (take k ss) @ steps fr\<rparr>)"
proof (induction xs arbitrary: fr)
  case Nil
  then show ?case by (simp add: running_total_def)
next
  case (Cons x xs)
  obtain i e where x: "x = (i, e)" by (cases x)
  show ?case
    using Cons.prems
    by (simp add: x Cons.IH [OF Cons.prems] truthy_int_def truthy_fn_def Let_def running_total_def)
qed

lemma kept_count_le: "kept_count c m t ss \<le> length ss"
  by (induction ss arbitrary: t) auto

lemma kept_count_within:
  "j < kept_count c m t ss \<Longrightarrow> t + running_total c ss (Suc j) \<le> m"
proof (induction ss arbitrary: t j)
  case Nil
  then show ?case by simp
next
  case (Cons s ss)
  from Cons.prems have fit: "\<not> t + c s > m" by (auto split: if_splits)
  show ?case
  proof (cases j)
    case 0
    with fit show ?thesis by (simp add: running_total_def)
  next
    case (Suc j')
    with Cons.prems fit have "j' < kept_count c m (t + c s) ss" by simp
    from Cons.IH [OF this] show ?thesis
      by (simp add: Suc running_total_def)
  qed
qed

lemma kept_count_stop:
  "kept_count c m t ss < length ss \<Longrightarrow> t + running_total c ss (Suc (kept_count c m t ss)) > m"
proof (induction ss arbitrary: t)
  case Nil
  then show ?case by simp
next
  case (Cons s ss)
  show ?case
  proof (cases "t + c s > m")
    case True
    then show ?thesis by (simp add: running_total_def)
  next
    case False
    with Cons.prems have "kept_count c m (t + c s) ss < length ss" by simp
    from Cons.IH [OF this] False show ?thesis
      by (simp add: running_total_def)
  qed
qed

lemma kept_count_total:
  "t \<le> m \<Longrightarrow> t + running_total c ss (kept_count c m t ss) \<le> m"
proof (induction ss arbitrary: t)
  case Nil
  then show ?case by (simp add: running_total_def)
next
  case (Cons s ss)
  show ?case
  proof (cases "t + c s > m")
    case True
    with Cons.prems show ?thesis by (simp add: running_total_def)
  next
    case False
    then have "t + c s \<le> m" by simp
    from Cons.IH [OF this] False show ?thesis
      by (simp add: running_total_def add.assoc)
  qed
qed

lemma compile_steps_unbounded:
  "\<not> (truthy_int mt \<and> truthy_fn ct) \<Longrightarrow>
   compile_steps fmt ind history mt ct = rev (labelled_steps fmt ind history)"
  by (simp add: compile_steps_def final_frame_def scan_unbounded labelled_steps_def)

lemma compile_steps_budget:
  "m \<noteq> 0 \<Longrightarrow>
   compile_steps fmt ind history (Some m) (Some c) =
     rev (take (kept_count c m 0 (labelled_steps fmt ind history)) (labelled_steps fmt ind history))"
  by (simp add: compile_steps_def final_frame_def scan_budget labelled_steps_def Let_def)

lemma labelled_steps_length: "length (labelled_steps fmt ind history) = length history"
  by (simp add: labelled_steps_def)

lemma labelled_steps_nth:
  "i < length history \<Longrightarrow>
   labelled_steps fmt ind history ! i = step_text fmt ind (length history) i (rev history ! i)"
  by (simp add: labelled_steps_def nth_enumerate_eq)


lemma kept_steps_nth:
  assumes "i < length (compile_steps fmt ind history mt ct)"
  shows "i < length history \<and>
         rev (compile_steps fmt ind history mt ct) ! i =
           step_text fmt ind (length history) i (rev history ! i)"
proof (cases "truthy_int mt \<and> truthy_fn ct")
  case False
  then have eq: "compile_steps fmt ind history mt ct = rev (labelled_steps fmt ind history)"
    by (rule compile_steps_unbounded)
  with assms have "i < length history" by (simp add: labelled_steps_length)
  then show ?thesis by (simp add: eq labelled_steps_nth)
next
  case True
  then obtain m c where mt: "mt = Some m" and m: "m \<noteq> 0" and ct: "ct = Some c"
    by (auto simp: truthy_int_def truthy_fn_def split: option.splits)
  let ?ss = "labelled_steps fmt ind history"
  let ?k = "kept_count c m 0 ?ss"
  have eq: "compile_steps fmt ind history mt ct = rev (take ?k ?ss)"
    by (simp add: mt ct compile_steps_budget [OF m])
  have "?k \<le> length history"
    using kept_count_le [of c m 0 ?ss] by (simp add: labelled_steps_length)
  with assms eq have i: "i < ?k" "i < length history" by simp_all
  then show ?thesis by (simp add: eq labelled_steps_nth)
qed

lemma rev_labelled_steps:
  "rev (labelled_steps fmt ind history) =
     map (\<lambda>k. step_text fmt ind (length history) (length history - Suc k) (history ! k))
       [0..<length history]"
proof (rule nth_equalityI)
  show "length (rev (labelled_steps fmt ind history)) =
        length (map (\<lambda>k. step_text fmt ind (length history) (length history - Suc k) (history ! k))
          [0..<length history])"
    by (simp add: labelled_steps_length)
next
  fix k
  assume "k < length (rev (labelled_steps fmt ind history))"
  then have k: "k < length history" by (simp add: labelled_steps_length)
  then have "length history - Suc k < length history" by simp
  moreover have "length history - Suc (length history - Suc k) = k" using k by simp
  ultimately show "rev (labelled_steps fmt ind history) ! k =
        map (\<lambda>k. step_text fmt ind (length history) (length history - Suc k) (history ! k))
          [0..<length history] ! k"
    using k by (simp add: rev_nth labelled_steps_length labelled_steps_nth)
qed

lemma strip_trimmed:
  "strip s = [] \<or> (\<not> is_space (hd (strip s)) \<and> \<not> is_space (last (strip s)))"
proof (cases "strip s = []")
  case True
  then show ?thesis by simp
next
  case False
  let ?a = "dropWhile is_space s"
  let ?b = "dropWhile is_space (rev ?a)"
  from False have b: "?b \<noteq> []" by (simp add: strip_def)
  then have hb: "\<not> is_space (hd ?b)" by (rule hd_dropWhile)
  have last: "last (strip s) = hd ?b" using b by (simp add: strip_def last_rev)
  have a: "?a \<noteq> []"
  proof
    assume "?a = []"
    then have "?b = []" by (simp del: dropWhile_eq_Nil_conv)
    with b show False by simp
  qed
  then have ha: "\<not> is_space (hd ?a)" by (rule hd_dropWhile)
  have "rev ?a = takeWhile is_space (rev ?a) @ ?b" by simp
  then have "?a = rev ?b @ rev (takeWhile is_space (rev ?a))"
    by (metis rev_append rev_rev_ident)
  then have "hd ?a = hd (rev ?b)" using b by (metis hd_append2 rev_is_Nil_conv)
  then have "hd (strip s) = hd ?a" by (simp add: strip_def)
  with ha hb last show ?thesis by simp
qed

lemma str_int_digits:
  "str_int 1 = ''1''" "str_int 4 = ''4''" "str_int 5 = ''5''" "str_int 6 = ''6''"
  by (simp_all add: str_int_def str_nat.simps digit_char_def)

lemma list_of_length_six:
  assumes "length xs = 6"
  shows "xs = [xs ! 0, xs ! 1, xs ! 2, xs ! 3, xs ! 4, xs ! 5]"
proof -
  have "[0..<6] = [0, 1, 2, 3, 4, 5::nat]" by (simp add: upt_rec)
  moreover have "xs = map ((!) xs) [0..<6]" using assms map_nth [of xs] by simp
  ultimately show ?thesis by simp
qed

lemma labelled_step_recent:
  "i < length history \<Longrightarrow> i < 4 \<Longrightarrow>
   labelled_steps fmt ind history ! i =
     ''* Step '' @ str_int (int (length history) - int i) @ '': '' @
     strip (ind (fmt (history ! (length history - Suc i))) 2)"
  by (simp add: labelled_steps_nth step_text_def step_content_def rev_nth)

subsection \<open>The token budget\<close>

text \<open>
  Claim C1, as the code has it. With a positive budget \<open>m\<close> and a counter \<open>c\<close>, the
  steps of the unbounded digest split into a dropped oldest-first prefix and the kept
  steps; the digest is the kept steps joined, and the token counts of the kept steps,
  each measured on its own with \<open>c\<close>, add up to at most \<open>m\<close>.
\<close>

theorem budget_kept_steps_within_limit:
  assumes "0 < m"
  shows "\<exists>dropped kept.
           compile_steps fmt indent history None None = dropped @ kept \<and>
           compile_progress fmt indent history (Some m) (Some c) =
             Inr (str_join [newline, newline] kept) \<and>
           sum_list (map c kept) \<le> m"
proof -
  let ?ss = "labelled_steps fmt indent history"
  let ?k = "kept_count c m 0 ?ss"
  from assms have m: "m \<noteq> 0" by simp
  have full: "compile_steps fmt indent history None None = rev ?ss"
    by (simp add: compile_steps_unbounded truthy_int_def)
  have "rev ?ss = rev (take ?k ?ss @ drop ?k ?ss)" by simp
  then have split: "rev ?ss = rev (drop ?k ?ss) @ rev (take ?k ?ss)"
    by (simp only: rev_append)
  have kept: "compile_progress fmt indent history (Some m) (Some c) =
                Inr (str_join [newline, newline] (rev (take ?k ?ss)))"
    by (simp add: compile_progress_def truthy_int_def truthy_fn_def compile_steps_budget [OF m])
  have "0 + running_total c ?ss ?k \<le> m"
    using assms by (intro kept_count_total) simp
  then have total: "sum_list (map c (rev (take ?k ?ss))) \<le> m"
    by (simp add: running_total_def rev_map [symmetric] sum_list_rev)
  from full split kept total show ?thesis by metis
qed

text \<open>The same at two episodes, a budget of 28 and one token per character.\<close>

theorem budget_kept_steps_within_limit_witness:
  "(0::int) < 28 \<and>
   (\<exists>dropped kept.
      compile_steps demo_format indent_spaces two_episodes None None = dropped @ kept \<and>
      compile_progress demo_format indent_spaces two_episodes (Some 28) (Some char_cost) =
        Inr (str_join [newline, newline] kept) \<and>
      sum_list (map char_cost kept) \<le> 28)"
proof -
  have h: "(0::int) < 28" by simp
  show ?thesis
    using h budget_kept_steps_within_limit [OF h, of demo_format indent_spaces two_episodes char_cost]
    by simp
qed

text \<open>
  Claim C1 as stated fails: the separators between the steps are not counted. Two steps
  of 14 characters fit a budget of 28 under a counter that charges one token per
  character, and the digest that joins them measures 30.
\<close>

theorem joined_digest_over_budget_counterexample:
  "compile_progress demo_format indent_spaces two_episodes (Some 28) (Some char_cost) =
     Inr (''* Step 1: full'' @ [newline, newline] @ ''* Step 2: full'') \<and>
   char_cost (''* Step 1: full'' @ [newline, newline] @ ''* Step 2: full'') = 30 \<and>
   \<not> char_cost (''* Step 1: full'' @ [newline, newline] @ ''* Step 2: full'') \<le> 28"
  by code_simp

text \<open>
  Claim C3. With an active budget \<open>m\<close> (not zero) the digest is made of the first
  \<open>k\<close> steps of the newest-first scan, each of them whole: the running total stays
  within \<open>m\<close> through these \<open>k\<close> steps, the step after them, when there is one, is the
  first that would push the total over \<open>m\<close>, and nothing older is looked at. When the
  newest step alone costs more than \<open>m\<close>, the result is the empty string and no error.
\<close>

theorem hard_cutoff:
  assumes "m \<noteq> 0"
  shows "\<exists>k\<le>length history.
           compile_progress fmt indent history (Some m) (Some c) =
             Inr (str_join [newline, newline] (rev (take k (labelled_steps fmt indent history)))) \<and>
           (\<forall>j<k. running_total c (labelled_steps fmt indent history) (Suc j) \<le> m) \<and>
           (k < length history \<longrightarrow>
              m < running_total c (labelled_steps fmt indent history) (Suc k)) \<and>
           (history \<noteq> [] \<and> m < c (labelled_steps fmt indent history ! 0) \<longrightarrow>
              compile_progress fmt indent history (Some m) (Some c) = Inr [])"
proof -
  let ?ss = "labelled_steps fmt indent history"
  let ?k = "kept_count c m 0 ?ss"
  have len: "?k \<le> length history"
    using kept_count_le [of c m 0 ?ss] by (simp add: labelled_steps_length)
  have kept: "compile_progress fmt indent history (Some m) (Some c) =
                Inr (str_join [newline, newline] (rev (take ?k ?ss)))"
    by (simp add: compile_progress_def truthy_int_def truthy_fn_def compile_steps_budget [OF assms])
  have within: "\<forall>j<?k. running_total c ?ss (Suc j) \<le> m"
    using kept_count_within [of _ c m 0 ?ss] by simp
  have stop: "?k < length history \<longrightarrow> m < running_total c ?ss (Suc ?k)"
    using kept_count_stop [of c m 0 ?ss] by (simp add: labelled_steps_length)
  have none: "history \<noteq> [] \<and> m < c (?ss ! 0) \<longrightarrow>
              compile_progress fmt indent history (Some m) (Some c) = Inr []"
  proof
    assume a: "history \<noteq> [] \<and> m < c (?ss ! 0)"
    then have "?ss \<noteq> []" using labelled_steps_length [of fmt indent history] by auto
    then obtain s rest where ss: "?ss = s # rest" by (cases ?ss) auto
    with a have "?k = 0" by simp
    with kept show "compile_progress fmt indent history (Some m) (Some c) = Inr []" by simp
  qed
  from len kept within stop none show ?thesis by blast
qed

text \<open>A budget of 3 tokens holds no step of two episodes: the digest is empty.\<close>

theorem hard_cutoff_witness:
  "(3::int) \<noteq> 0 \<and>
   compile_progress demo_format indent_spaces two_episodes (Some 3) (Some char_cost) = Inr []"
proof -
  have h: "(3::int) \<noteq> 0" by simp
  have big: "two_episodes \<noteq> [] \<and> 3 < char_cost (labelled_steps demo_format indent_spaces two_episodes ! 0)"
    by code_simp
  from hard_cutoff [OF h, of two_episodes demo_format indent_spaces char_cost] big h
  show ?thesis by blast
qed

subsection \<open>The guard\<close>

text \<open>
  Claim C7, as the code has it. The call raises, and then the \<^verbatim>\<open>ValueError\<close> of line 61,
  exactly when \<open>max_tokens\<close> is set to a number other than zero and \<open>count_tokens\<close> is
  \<^verbatim>\<open>None\<close>, whatever the episodes and their rendering are; in every other case it
  returns a digest.
\<close>

theorem guard_raises_for_nonzero_budget_only:
  "(compile_progress fmt indent history max_tokens count_tokens =
      Inl (ValueError ''count_tokens is required if max_tokens is set'')) =
   ((\<exists>m. max_tokens = Some m \<and> m \<noteq> 0) \<and> count_tokens = None) \<and>
   isl (compile_progress fmt indent history max_tokens count_tokens) =
   ((\<exists>m. max_tokens = Some m \<and> m \<noteq> 0) \<and> count_tokens = None)"
  by (auto simp: compile_progress_def truthy_int_def truthy_fn_def split: option.splits)

text \<open>A budget of 5 without a counter raises; with a counter, or without a budget, it does not.\<close>

theorem guard_raises_for_nonzero_budget_only_witness:
  "compile_progress demo_format indent_spaces two_episodes (Some 5) None =
     Inl (ValueError ''count_tokens is required if max_tokens is set'') \<and>
   \<not> isl (compile_progress demo_format indent_spaces two_episodes (Some 5) (Some char_cost)) \<and>
   \<not> isl (compile_progress demo_format indent_spaces two_episodes None None)"
  using guard_raises_for_nonzero_budget_only [of demo_format indent_spaces two_episodes "Some 5" None]
    guard_raises_for_nonzero_budget_only [of demo_format indent_spaces two_episodes "Some 5" "Some char_cost"]
    guard_raises_for_nonzero_budget_only [of demo_format indent_spaces two_episodes None None]
  by simp

text \<open>
  Claim C7 as stated fails at a budget that is set to zero: with \<open>max_tokens = 0\<close> and no
  counter the call returns the digest of both episodes.
\<close>

theorem zero_budget_without_counter_counterexample:
  "compile_progress demo_format indent_spaces two_episodes (Some 0) None =
     Inr (''* Step 1: full'' @ [newline, newline] @ ''* Step 2: full'')"
  by code_simp

text \<open>
  Claim C9. With \<open>max_tokens = 0\<close> and no counter the call returns what the call without
  a budget returns; with \<open>max_tokens = 0\<close> the digest holds every episode's step and is
  the same for every \<open>count_tokens\<close>, given or not.
\<close>

theorem zero_budget_is_unbounded:
  "compile_progress fmt indent history (Some 0) None = compile_progress fmt indent history None None \<and>
   compile_progress fmt indent history (Some 0) count_tokens =
     Inr (str_join [newline, newline] (rev (labelled_steps fmt indent history))) \<and>
   length (compile_steps fmt indent history (Some 0) count_tokens) = length history"
  by (simp add: compile_progress_def truthy_int_def compile_steps_unbounded labelled_steps_length)

subsection \<open>The message\<close>

text \<open>
  Claim C10. \<^verbatim>\<open>get_messages\<close> compiles the digest with the configured budget and the
  component's counter, which never raises. It yields nothing when the digest is empty,
  and otherwise one system message: the header, a blank line, the digest.
\<close>

theorem get_messages_header:
  "\<exists>digest.
     compile_progress fmt indent (episodes (event_history self))
       (Some (cfg_max_tokens (config self))) (Some (self_count_tokens self)) = Inr digest \<and>
     get_messages fmt indent self =
       Inr (if digest = [] then []
            else [\<lparr>role = SYSTEM,
                   content = ''## Progress on your Task so far'' @ [newline, newline] @ digest\<rparr>])"
  by (simp add: get_messages_def compile_progress_def truthy_fn_def ChatMessage_system_def
      progress_header_def)

subsection \<open>Six episodes under a budget of 100\<close>

text \<open>
  Claim C2, as the code has it. With six episodes, a budget of 100 and a counter under
  which each of the four newest steps costs 30 tokens, the scan keeps steps 6, 5 and 4
  (90 tokens) and stops at step 3, which would bring the total to 120.
\<close>

theorem six_episodes_budget_100:
  assumes "length history = 6"
    and "\<forall>i<4. c (labelled_steps fmt indent history ! i) = 30"
  shows "compile_progress fmt indent history (Some 100) (Some c) =
           Inr (''* Step 4: '' @ strip (indent (fmt (history ! 3)) 2) @ [newline, newline] @
                ''* Step 5: '' @ strip (indent (fmt (history ! 4)) 2) @ [newline, newline] @
                ''* Step 6: '' @ strip (indent (fmt (history ! 5)) 2))"
proof -
  let ?ss = "labelled_steps fmt indent history"
  have len: "length ?ss = 6" using assms(1) by (simp add: labelled_steps_length)
  have ss: "?ss = [?ss ! 0, ?ss ! 1, ?ss ! 2, ?ss ! 3, ?ss ! 4, ?ss ! 5]"
    using len by (rule list_of_length_six)
  have cost: "c (?ss ! 0) = 30" "c (?ss ! 1) = 30" "c (?ss ! 2) = 30" "c (?ss ! 3) = 30"
    using assms(2) by simp_all
  have "kept_count c 100 0 [?ss ! 0, ?ss ! 1, ?ss ! 2, ?ss ! 3, ?ss ! 4, ?ss ! 5] = 3"
    using cost by simp
  with ss have k: "kept_count c 100 0 ?ss = 3" by simp
  have "take 3 [?ss ! 0, ?ss ! 1, ?ss ! 2, ?ss ! 3, ?ss ! 4, ?ss ! 5] = [?ss ! 0, ?ss ! 1, ?ss ! 2]"
    by simp
  with ss have "take 3 ?ss = [?ss ! 0, ?ss ! 1, ?ss ! 2]" by simp
  then have kept: "compile_steps fmt indent history (Some 100) (Some c) = [?ss ! 2, ?ss ! 1, ?ss ! 0]"
    by (simp add: compile_steps_budget k)
  have s0: "?ss ! 0 = ''* Step 6: '' @ strip (indent (fmt (history ! 5)) 2)"
  proof -
    have "(0::nat) < length history" "(0::nat) < 4" using assms(1) by simp_all
    from labelled_step_recent [OF this, of fmt indent] assms(1) show ?thesis
      by (simp add: str_int_digits)
  qed
  have s1: "?ss ! Suc 0 = ''* Step 5: '' @ strip (indent (fmt (history ! 4)) 2)"
  proof -
    have "Suc 0 < length history" "Suc 0 < 4" using assms(1) by simp_all
    from labelled_step_recent [OF this, of fmt indent] assms(1) show ?thesis
      by (simp add: str_int_digits)
  qed
  have s2: "?ss ! 2 = ''* Step 4: '' @ strip (indent (fmt (history ! 3)) 2)"
  proof -
    have "(2::nat) < length history" "(2::nat) < 4" using assms(1) by simp_all
    from labelled_step_recent [OF this, of fmt indent] assms(1) show ?thesis
      by (simp add: str_int_digits)
  qed
  show ?thesis
    by (simp add: compile_progress_def truthy_int_def truthy_fn_def kept s0 s1 s2)
qed

text \<open>The same at six summarised episodes, a summary costing 5 tokens.\<close>

theorem six_episodes_budget_100_witness:
  "length six_episodes = 6 \<and>
   tier_cost (labelled_steps demo_format indent_spaces six_episodes ! 0) = 30 \<and>
   tier_cost (labelled_steps demo_format indent_spaces six_episodes ! 1) = 30 \<and>
   tier_cost (labelled_steps demo_format indent_spaces six_episodes ! 2) = 30 \<and>
   tier_cost (labelled_steps demo_format indent_spaces six_episodes ! 3) = 30 \<and>
   tier_cost ''* Step 1: sum'' = 5 \<and>
   compile_progress demo_format indent_spaces six_episodes (Some 100) (Some tier_cost) =
     Inr (''* Step 4: full'' @ [newline, newline] @ ''* Step 5: full'' @ [newline, newline] @
          ''* Step 6: full'')"
proof -
  have h1: "length six_episodes = 6" by code_simp
  have cost:
    "tier_cost (labelled_steps demo_format indent_spaces six_episodes ! 0) = 30"
    "tier_cost (labelled_steps demo_format indent_spaces six_episodes ! 1) = 30"
    "tier_cost (labelled_steps demo_format indent_spaces six_episodes ! 2) = 30"
    "tier_cost (labelled_steps demo_format indent_spaces six_episodes ! 3) = 30"
    by code_simp+
  then have h2: "\<forall>i<4. tier_cost (labelled_steps demo_format indent_spaces six_episodes ! i) = 30"
    by (simp add: less_Suc_eq eval_nat_numeral)
  have h3: "tier_cost ''* Step 1: sum'' = 5" by code_simp
  have full: "strip (indent_spaces (demo_format (six_episodes ! 3)) 2) = ''full''"
             "strip (indent_spaces (demo_format (six_episodes ! 4)) 2) = ''full''"
             "strip (indent_spaces (demo_format (six_episodes ! 5)) 2) = ''full''"
    by code_simp+
  from six_episodes_budget_100 [OF h1 h2] h1 cost h3 full show ?thesis by simp
qed

text \<open>
  Claim C2 as stated fails: in its scenario the digest holds steps 4, 5 and 6, not
  step 6 alone.
\<close>

theorem only_newest_step_counterexample:
  "tier_cost ''* Step 6: full'' = 30 \<and> tier_cost ''* Step 5: full'' = 30 \<and>
   tier_cost ''* Step 4: full'' = 30 \<and> tier_cost ''* Step 3: full'' = 30 \<and>
   tier_cost ''* Step 2: sum'' = 5 \<and> tier_cost ''* Step 1: sum'' = 5 \<and>
   compile_progress demo_format indent_spaces six_episodes (Some 100) (Some tier_cost) =
     Inr (''* Step 4: full'' @ [newline, newline] @ ''* Step 5: full'' @ [newline, newline] @
          ''* Step 6: full'') \<and>
   compile_progress demo_format indent_spaces six_episodes (Some 100) (Some tier_cost) \<noteq>
     Inr ''* Step 6: full''"
  by code_simp

subsection \<open>The digest without a budget\<close>

text \<open>
  Claim C4. Without a budget the digest joins exactly one labelled step per episode, in
  chronological order with the labels 1 to N: the step of the episode at position \<open>k\<close>
  (from 0, oldest first) is labelled \<open>k + 1\<close>, and it is the full rendering when the
  episode is among the last 4 or has no summary, its summary otherwise.
\<close>

theorem unbounded_digest_steps:
  "compile_progress fmt indent history None count_tokens =
     Inr (str_join [newline, newline] (compile_steps fmt indent history None count_tokens)) \<and>
   length (compile_steps fmt indent history None count_tokens) = length history \<and>
   compile_steps fmt indent history None count_tokens =
     map (\<lambda>k. ''* Step '' @ str_int (int k + 1) @ '': '' @
               (if length history - k \<le> 4 \<or> summary (history ! k) = None
                then strip (indent (fmt (history ! k)) 2)
                else the (summary (history ! k))))
       [0..<length history]"
proof -
  have unb: "compile_steps fmt indent history None count_tokens = rev (labelled_steps fmt indent history)"
    by (simp add: compile_steps_unbounded truthy_int_def)
  have "map (\<lambda>k. step_text fmt indent (length history) (length history - Suc k) (history ! k))
          [0..<length history] =
        map (\<lambda>k. ''* Step '' @ str_int (int k + 1) @ '': '' @
               (if length history - k \<le> 4 \<or> summary (history ! k) = None
                then strip (indent (fmt (history ! k)) 2)
                else the (summary (history ! k))))
          [0..<length history]"
  proof (rule map_cong [OF refl])
    fix k
    assume "k \<in> set [0..<length history]"
    then have k: "k < length history" by simp
    then have num: "int (length history) - int (length history - Suc k) = int k + 1" by simp
    have tier: "(length history - Suc k < 4) = (length history - k \<le> 4)" using k by arith
    show "step_text fmt indent (length history) (length history - Suc k) (history ! k) =
          ''* Step '' @ str_int (int k + 1) @ '': '' @
               (if length history - k \<le> 4 \<or> summary (history ! k) = None
                then strip (indent (fmt (history ! k)) 2)
                else the (summary (history ! k)))"
      by (simp only: step_text_def step_content_def num tier)
  qed
  with unb have steps: "compile_steps fmt indent history None count_tokens =
     map (\<lambda>k. ''* Step '' @ str_int (int k + 1) @ '': '' @
               (if length history - k \<le> 4 \<or> summary (history ! k) = None
                then strip (indent (fmt (history ! k)) 2)
                else the (summary (history ! k))))
       [0..<length history]"
    by (simp only: rev_labelled_steps)
  have "compile_progress fmt indent history None count_tokens =
     Inr (str_join [newline, newline] (compile_steps fmt indent history None count_tokens))"
    by (simp add: compile_progress_def truthy_int_def)
  moreover have "length (compile_steps fmt indent history None count_tokens) = length history"
    by (simp add: unb labelled_steps_length)
  ultimately show ?thesis using steps by blast
qed

text \<open>Six summarised episodes: two summaries, then four full renderings.\<close>

theorem unbounded_digest_steps_witness:
  "compile_steps demo_format indent_spaces six_episodes None None =
     [''* Step 1: sum'', ''* Step 2: sum'', ''* Step 3: full'', ''* Step 4: full'',
      ''* Step 5: full'', ''* Step 6: full'']"
proof -
  have "map (\<lambda>k. ''* Step '' @ str_int (int k + 1) @ '': '' @
               (if length six_episodes - k \<le> 4 \<or> summary (six_episodes ! k) = None
                then strip (indent_spaces (demo_format (six_episodes ! k)) 2)
                else the (summary (six_episodes ! k))))
       [0..<length six_episodes] =
     [''* Step 1: sum'', ''* Step 2: sum'', ''* Step 3: full'', ''* Step 4: full'',
      ''* Step 5: full'', ''* Step 6: full'']"
    by code_simp
  with unbounded_digest_steps [of demo_format indent_spaces six_episodes None]
  show ?thesis by simp
qed

subsection \<open>Tiering and labels\<close>

text \<open>
  Claim C5. Whatever the budget, the kept step of recency index \<open>i\<close> (0 the most
  recent) holds the full rendering, \<^verbatim>\<open>indent(episode.format(), 2).strip()\<close>, exactly
  when \<open>i < 4\<close> or the episode has no summary, and the summary otherwise; the full
  rendering has no whitespace at either end.
\<close>

theorem tiering_rule:
  assumes "i < length (compile_steps fmt indent history max_tokens count_tokens)"
  shows "rev (compile_steps fmt indent history max_tokens count_tokens) ! i =
           ''* Step '' @ str_int (int (length history) - int i) @ '': '' @
           (if i < 4 \<or> summary (rev history ! i) = None
            then strip (indent (fmt (rev history ! i)) 2)
            else the (summary (rev history ! i))) \<and>
         (strip (indent (fmt (rev history ! i)) 2) = [] \<or>
          \<not> is_space (hd (strip (indent (fmt (rev history ! i)) 2))) \<and>
          \<not> is_space (last (strip (indent (fmt (rev history ! i)) 2))))"
  using kept_steps_nth [OF assms] strip_trimmed [of "indent (fmt (rev history ! i)) 2"]
  by (simp only: step_text_def step_content_def)

text \<open>The fifth most recent of six summarised episodes is rendered as its summary.\<close>

theorem tiering_rule_witness:
  "4 < length (compile_steps demo_format indent_spaces six_episodes (Some 1000) (Some tier_cost)) \<and>
   rev (compile_steps demo_format indent_spaces six_episodes (Some 1000) (Some tier_cost)) ! 4 =
     ''* Step 2: sum''"
proof -
  have h: "4 < length (compile_steps demo_format indent_spaces six_episodes (Some 1000) (Some tier_cost))"
    by code_simp
  have "''* Step '' @ str_int (int (length six_episodes) - int 4) @ '': '' @
           (if (4::nat) < 4 \<or> summary (rev six_episodes ! 4) = None
            then strip (indent_spaces (demo_format (rev six_episodes ! 4)) 2)
            else the (summary (rev six_episodes ! 4))) = ''* Step 2: sum''"
    by code_simp
  with tiering_rule [OF h] h show ?thesis by simp
qed

text \<open>
  Claim C6. The digest is the kept steps joined by a blank line; the kept step of
  recency index \<open>i\<close> starts with the label \<^verbatim>\<open>* Step n - i: \<close>, \<open>n\<close> the number of
  episodes; when every episode is kept, the first step is step 1 and the last is step
  \<open>n\<close>.
\<close>

theorem step_labels:
  assumes "compile_progress fmt indent history max_tokens count_tokens = Inr digest"
  shows "digest = str_join [newline, newline]
                    (compile_steps fmt indent history max_tokens count_tokens) \<and>
         (\<forall>i<length (compile_steps fmt indent history max_tokens count_tokens).
            \<exists>body. rev (compile_steps fmt indent history max_tokens count_tokens) ! i =
                     ''* Step '' @ str_int (int (length history) - int i) @ '': '' @ body) \<and>
         (length (compile_steps fmt indent history max_tokens count_tokens) = length history \<and>
          history \<noteq> [] \<longrightarrow>
            (\<exists>body. hd (compile_steps fmt indent history max_tokens count_tokens) =
                      ''* Step 1: '' @ body) \<and>
            (\<exists>body. last (compile_steps fmt indent history max_tokens count_tokens) =
                      ''* Step '' @ str_int (int (length history)) @ '': '' @ body))"
proof -
  let ?kept = "compile_steps fmt indent history max_tokens count_tokens"
  have joined: "digest = str_join [newline, newline] ?kept"
    using assms by (simp add: compile_progress_def split: if_splits)
  have label: "\<exists>body. rev ?kept ! i =
                 ''* Step '' @ str_int (int (length history) - int i) @ '': '' @ body"
    if "i < length ?kept" for i
    using kept_steps_nth [OF that] by (simp add: step_text_def)
  have ends: "(\<exists>body. hd ?kept = ''* Step 1: '' @ body) \<and>
              (\<exists>body. last ?kept = ''* Step '' @ str_int (int (length history)) @ '': '' @ body)"
    if all: "length ?kept = length history" and ne: "history \<noteq> []"
  proof -
    from all ne have kept_ne: "?kept \<noteq> []" by auto
    from all ne have "0 < length ?kept" by simp
    from label [OF this] kept_ne have newest:
      "\<exists>body. last ?kept = ''* Step '' @ str_int (int (length history)) @ '': '' @ body"
      by (simp add: hd_rev [symmetric] hd_conv_nth)
    from all ne have "length history - 1 < length ?kept" by simp
    from label [OF this] obtain body where
      "rev ?kept ! (length history - 1) =
         ''* Step '' @ str_int (int (length history) - int (length history - 1)) @ '': '' @ body"
      by blast
    moreover have "int (length history) - int (length history - 1) = 1" using ne by (cases history) auto
    moreover have "rev ?kept ! (length history - 1) = hd ?kept"
      using kept_ne all ne by (simp add: rev_nth hd_conv_nth)
    ultimately have "hd ?kept = ''* Step 1: '' @ body" by (simp add: str_int_digits)
    with newest show ?thesis by blast
  qed
  from joined label ends show ?thesis by blast
qed

text \<open>The digest of two episodes under a budget that holds both.\<close>

theorem step_labels_witness:
  "compile_progress demo_format indent_spaces two_episodes (Some 28) (Some char_cost) =
     Inr (''* Step 1: full'' @ [newline, newline] @ ''* Step 2: full'') \<and>
   ''* Step 1: full'' @ [newline, newline] @ ''* Step 2: full'' =
     str_join [newline, newline]
       (compile_steps demo_format indent_spaces two_episodes (Some 28) (Some char_cost))"
proof -
  have h: "compile_progress demo_format indent_spaces two_episodes (Some 28) (Some char_cost) =
     Inr (''* Step 1: full'' @ [newline, newline] @ ''* Step 2: full'')"
    by code_simp
  from step_labels [OF h] h show ?thesis by blast
qed

subsection \<open>Purity\<close>

text \<open>
  The loop over the store computes what \<open>scan\<close> computes and writes to the list of
  steps only, provided that list is neither the history list nor one of its episodes.
\<close>

lemma scan_heap_refines:
  assumes hist: "cells hc hist = Some (Episode_list refs)"
    and len: "length history = length refs"
    and k: "k \<le> length refs"
    and eps: "\<forall>j<k. cells hc (refs ! j) = Some (Episode_object (history ! j))"
    and stp: "cells hc a = Some (String_list ss)"
    and fresh: "a \<noteq> hist" "\<forall>j<k. refs ! j \<noteq> a"
  shows "\<exists>h2. scan_heap fmt ind mt ct n hist a k i t hc = Some h2 \<and>
           next_addr h2 = next_addr hc \<and>
           (\<forall>p. p \<noteq> a \<longrightarrow> cells h2 p = cells hc p) \<and>
           cells h2 a = Some (String_list (steps (scan fmt ind mt ct n
             (enumerate i (rev (take k history))) \<lparr>episode_history = eh, steps = ss, tokens = t\<rparr>)))"
  using assms
proof (induction k arbitrary: i t hc ss)
  case 0
  then show ?case by simp
next
  case (Suc k)
  let ?e = "history ! k"
  let ?step = "step_text fmt ind n i ?e"
  have klt: "k < length refs" "k < length history" using Suc.prems by simp_all
  have take: "rev (take (Suc k) history) = ?e # rev (take k history)"
    using klt by (simp add: take_Suc_conv_app_nth)
  have gl: "get_episode_list hc hist = Some refs"
    using Suc.prems by (simp add: get_episode_list_def)
  have ge: "get_episode hc (refs ! k) = Some ?e"
    using Suc.prems by (simp add: get_episode_def)
  have gs: "insert_front hc a ?step = Some (hc\<lparr>cells := (cells hc)(a \<mapsto> String_list (?step # ss))\<rparr>)"
    using Suc.prems by (simp add: insert_front_def get_string_list_def)
  let ?hc' = "hc\<lparr>cells := (cells hc)(a \<mapsto> String_list (?step # ss))\<rparr>"
  have next_step: "\<exists>h2. scan_heap fmt ind mt ct n hist a k (Suc i) t' ?hc' = Some h2 \<and>
           next_addr h2 = next_addr ?hc' \<and>
           (\<forall>p. p \<noteq> a \<longrightarrow> cells h2 p = cells ?hc' p) \<and>
           cells h2 a = Some (String_list (steps (scan fmt ind mt ct n
             (enumerate (Suc i) (rev (take k history)))
             \<lparr>episode_history = eh, steps = ?step # ss, tokens = t'\<rparr>)))" for t'
  proof (rule Suc.IH)
    show "cells ?hc' hist = Some (Episode_list refs)" using Suc.prems by simp
    show "length history = length refs" by fact
    show "k \<le> length refs" using klt by simp
    show "\<forall>j<k. cells ?hc' (refs ! j) = Some (Episode_object (history ! j))"
      using Suc.prems by simp
    show "cells ?hc' a = Some (String_list (?step # ss))" by simp
    show "a \<noteq> hist" by fact
    show "\<forall>j<k. refs ! j \<noteq> a" using Suc.prems by simp
  qed
  show ?case
  proof (cases "truthy_int mt \<and> truthy_fn ct")
    case False
    then have nb: "(truthy_int mt \<and> truthy_fn ct) = False" by simp
    from next_step [of t] obtain h2 where h2:
      "scan_heap fmt ind mt ct n hist a k (Suc i) t ?hc' = Some h2"
      "next_addr h2 = next_addr ?hc'"
      "\<forall>p. p \<noteq> a \<longrightarrow> cells h2 p = cells ?hc' p"
      "cells h2 a = Some (String_list (steps (scan fmt ind mt ct n
             (enumerate (Suc i) (rev (take k history)))
             \<lparr>episode_history = eh, steps = ?step # ss, tokens = t\<rparr>)))"
      by blast
    have run: "scan_heap fmt ind mt ct n hist a (Suc k) i t hc = Some h2"
      using klt by (simp add: gl ge gs h2(1) Let_def nb)
    have pure: "scan fmt ind mt ct n (enumerate i (rev (take (Suc k) history)))
                  \<lparr>episode_history = eh, steps = ss, tokens = t\<rparr> =
                scan fmt ind mt ct n (enumerate (Suc i) (rev (take k history)))
                  \<lparr>episode_history = eh, steps = ?step # ss, tokens = t\<rparr>"
      by (simp add: take Let_def nb)
    from run h2(2,3,4) show ?thesis by (simp add: pure)
  next
    case True
    show ?thesis
    proof (cases "t + (the ct) ?step > the mt")
      case over: True
      have run: "scan_heap fmt ind mt ct n hist a (Suc k) i t hc = Some hc"
        using True over klt by (simp add: gl ge Let_def)
      have pure: "scan fmt ind mt ct n (enumerate i (rev (take (Suc k) history)))
                  \<lparr>episode_history = eh, steps = ss, tokens = t\<rparr> =
                  \<lparr>episode_history = eh, steps = ss, tokens = t\<rparr>"
        using True over by (simp add: take Let_def)
      from run Suc.prems(5) show ?thesis by (simp add: pure)
    next
      case within: False
      from next_step [of "t + (the ct) ?step"] obtain h2 where h2:
        "scan_heap fmt ind mt ct n hist a k (Suc i) (t + (the ct) ?step) ?hc' = Some h2"
        "next_addr h2 = next_addr ?hc'"
        "\<forall>p. p \<noteq> a \<longrightarrow> cells h2 p = cells ?hc' p"
        "cells h2 a = Some (String_list (steps (scan fmt ind mt ct n
               (enumerate (Suc i) (rev (take k history)))
               \<lparr>episode_history = eh, steps = ?step # ss, tokens = t + (the ct) ?step\<rparr>)))"
        by blast
      have run: "scan_heap fmt ind mt ct n hist a (Suc k) i t hc = Some h2"
        using True within klt by (simp add: gl ge gs h2(1) Let_def)
      have pure: "scan fmt ind mt ct n (enumerate i (rev (take (Suc k) history)))
                  \<lparr>episode_history = eh, steps = ss, tokens = t\<rparr> =
                scan fmt ind mt ct n (enumerate (Suc i) (rev (take k history)))
                  \<lparr>episode_history = eh, steps = ?step # ss, tokens = t + (the ct) ?step\<rparr>"
        using True within by (simp add: take Let_def)
      from run h2(2,3,4) show ?thesis by (simp add: pure)
    qed
  qed
qed

text \<open>
  One call in a store whose addresses in use are all below the next unused one.
\<close>

lemma compile_progress_heap_call:
  assumes wf: "\<forall>p\<in>dom (cells h). p < next_addr h"
    and hist: "cells h history_ref = Some (Episode_list refs)"
    and eps: "map (cells h) refs = map (\<lambda>episode. Some (Episode_object episode)) history"
  shows "\<exists>h'. compile_progress_heap fmt indent h self history_ref max_tokens count_tokens =
                 Some (compile_progress fmt indent history max_tokens count_tokens, h') \<and>
               (\<forall>p\<in>dom (cells h). cells h' p = cells h p) \<and>
               (\<forall>p\<in>dom (cells h'). p < next_addr h')"
proof (cases "truthy_int max_tokens \<and> \<not> truthy_fn count_tokens")
  case True
  then have "compile_progress_heap fmt indent h self history_ref max_tokens count_tokens =
               Some (compile_progress fmt indent history max_tokens count_tokens, h)"
    by (simp add: compile_progress_heap_def compile_progress_def)
  with wf show ?thesis by blast
next
  case False
  then have guard: "(truthy_int max_tokens \<and> \<not> truthy_fn count_tokens) = False" by simp
  let ?a = "next_addr h"
  let ?h1 = "h\<lparr>cells := (cells h)(?a \<mapsto> String_list []), next_addr := Suc ?a\<rparr>"
  have fresh: "?a \<notin> dom (cells h)" using wf by auto
  have len: "length history = length refs"
    using eps by (metis length_map)
  have ep_at: "cells h (refs ! j) = Some (Episode_object (history ! j))" if "j < length refs" for j
  proof -
    have "map (cells h) refs ! j = map (\<lambda>episode. Some (Episode_object episode)) history ! j"
      by (simp only: eps)
    with that len show ?thesis by simp
  qed
  have a_hist: "?a \<noteq> history_ref" using fresh hist by auto
  have a_refs: "\<forall>j<length refs. refs ! j \<noteq> ?a"
  proof (intro allI impI)
    fix j
    assume "j < length refs"
    then have "refs ! j \<in> dom (cells h)" using ep_at by blast
    with fresh show "refs ! j \<noteq> ?a" by metis
  qed
  have "\<exists>h2. scan_heap fmt indent max_tokens count_tokens (length refs) history_ref ?a
                (length refs) 0 0 ?h1 = Some h2 \<and>
           next_addr h2 = next_addr ?h1 \<and>
           (\<forall>p. p \<noteq> ?a \<longrightarrow> cells h2 p = cells ?h1 p) \<and>
           cells h2 ?a = Some (String_list (steps (scan fmt indent max_tokens count_tokens (length refs)
             (enumerate 0 (rev (take (length refs) history)))
             \<lparr>episode_history = history, steps = [], tokens = 0\<rparr>)))"
  proof (rule scan_heap_refines)
    show "cells ?h1 history_ref = Some (Episode_list refs)" using hist a_hist by simp
    show "length history = length refs" by fact
    show "length refs \<le> length refs" by simp
    show "\<forall>j<length refs. cells ?h1 (refs ! j) = Some (Episode_object (history ! j))"
      using ep_at a_refs by simp
    show "cells ?h1 ?a = Some (String_list [])" by simp
    show "?a \<noteq> history_ref" by fact
    show "\<forall>j<length refs. refs ! j \<noteq> ?a" by fact
  qed
  then obtain h2 where run:
      "scan_heap fmt indent max_tokens count_tokens (length refs) history_ref ?a
         (length refs) 0 0 ?h1 = Some h2"
    and nxt: "next_addr h2 = next_addr ?h1"
    and same: "\<forall>p. p \<noteq> ?a \<longrightarrow> cells h2 p = cells ?h1 p"
    and kept: "cells h2 ?a = Some (String_list (steps (scan fmt indent max_tokens count_tokens
             (length refs) (enumerate 0 (rev (take (length refs) history)))
             \<lparr>episode_history = history, steps = [], tokens = 0\<rparr>)))"
    by blast
  have kept': "get_string_list h2 ?a =
                 Some (compile_steps fmt indent history max_tokens count_tokens)"
    using kept len by (simp add: get_string_list_def compile_steps_def final_frame_def)
  have list1: "get_episode_list ?h1 history_ref = Some refs"
    using hist a_hist by (simp add: get_episode_list_def)
  have "compile_progress_heap fmt indent h self history_ref max_tokens count_tokens =
          Some (compile_progress fmt indent history max_tokens count_tokens, h2)"
    by (simp add: compile_progress_heap_def compile_progress_def guard alloc_def list1 run kept')
  moreover have "\<forall>p\<in>dom (cells h). cells h2 p = cells h p"
  proof
    fix p
    assume "p \<in> dom (cells h)"
    with fresh have "p \<noteq> ?a" by auto
    with same show "cells h2 p = cells h p" by simp
  qed
  moreover have "\<forall>p\<in>dom (cells h2). p < next_addr h2"
  proof
    fix p
    assume p: "p \<in> dom (cells h2)"
    show "p < next_addr h2"
    proof (cases "p = ?a")
      case True
      then show ?thesis by (simp add: nxt)
    next
      case False
      with same have "cells h2 p = cells h p" by simp
      with p have "p \<in> dom (cells h)" by (simp add: domIff)
      with wf have "p < ?a" by blast
      then show ?thesis by (simp add: nxt)
    qed
  qed
  ultimately show ?thesis by blast
qed

text \<open>
  Claim C8. In a store where \<^verbatim>\<open>episode_history\<close> refers to a list of episodes, a call
  returns, with the digest (or the error) that the episodes' values, the budget and the
  counter determine, whatever else the store holds and whichever object \<^verbatim>\<open>self\<close> is;
  a second call with the same arguments in the store the first one left returns the
  same; and every object that existed before the first call, the component, the list
  and the episodes among them, is unchanged after either call. The only object written
  is the list of steps, which the call creates.
\<close>

theorem compile_progress_reads_only:
  assumes wf: "\<forall>p\<in>dom (cells h). p < next_addr h"
    and hist: "cells h history_ref = Some (Episode_list refs)"
    and eps: "map (cells h) refs = map (\<lambda>episode. Some (Episode_object episode)) history"
  shows "\<exists>h' h''.
           compile_progress_heap fmt indent h self history_ref max_tokens count_tokens =
             Some (compile_progress fmt indent history max_tokens count_tokens, h') \<and>
           compile_progress_heap fmt indent h' self history_ref max_tokens count_tokens =
             Some (compile_progress fmt indent history max_tokens count_tokens, h'') \<and>
           (\<forall>p\<in>dom (cells h). cells h' p = cells h p \<and> cells h'' p = cells h p)"
proof -
  from compile_progress_heap_call [OF wf hist eps] obtain h' where
    first: "compile_progress_heap fmt indent h self history_ref max_tokens count_tokens =
              Some (compile_progress fmt indent history max_tokens count_tokens, h')"
    and same: "\<forall>p\<in>dom (cells h). cells h' p = cells h p"
    and wf': "\<forall>p\<in>dom (cells h'). p < next_addr h'"
    by blast
  have in_dom: "history_ref \<in> dom (cells h)" using hist by auto
  have hist': "cells h' history_ref = Some (Episode_list refs)"
    using same in_dom hist by simp
  have "map (cells h') refs = map (cells h) refs"
  proof (rule map_cong [OF refl])
    fix r
    assume "r \<in> set refs"
    then have "cells h r \<in> set (map (cells h) refs)" by simp
    then have "cells h r \<in> set (map (\<lambda>episode. Some (Episode_object episode)) history)"
      by (simp only: eps)
    then have "r \<in> dom (cells h)" by auto
    with same show "cells h' r = cells h r" by simp
  qed
  with eps have eps': "map (cells h') refs = map (\<lambda>episode. Some (Episode_object episode)) history"
    by simp
  from compile_progress_heap_call [OF wf' hist' eps'] obtain h'' where
    second: "compile_progress_heap fmt indent h' self history_ref max_tokens count_tokens =
              Some (compile_progress fmt indent history max_tokens count_tokens, h'')"
    and same': "\<forall>p\<in>dom (cells h'). cells h'' p = cells h' p"
    by blast
  have "\<forall>p\<in>dom (cells h). cells h' p = cells h p \<and> cells h'' p = cells h p"
  proof
    fix p
    assume p: "p \<in> dom (cells h)"
    with same have eq: "cells h' p = cells h p" by simp
    with p have "p \<in> dom (cells h')" by auto
    with same' eq show "cells h' p = cells h p \<and> cells h'' p = cells h p" by simp
  qed
  with first second show ?thesis by blast
qed

text \<open>Two calls in the store of two episodes, with a budget that holds both steps.\<close>

theorem compile_progress_reads_only_witness:
  "fst (the (compile_progress_heap demo_format indent_spaces demo_heap 0 1 (Some 28) (Some char_cost))) =
     Inr (''* Step 1: full'' @ [newline, newline] @ ''* Step 2: full'') \<and>
   cells (snd (the (compile_progress_heap demo_format indent_spaces demo_heap 0 1 (Some 28)
     (Some char_cost)))) 0 = Some (Other_object ''component'') \<and>
   cells (snd (the (compile_progress_heap demo_format indent_spaces demo_heap 0 1 (Some 28)
     (Some char_cost)))) 1 = Some (Episode_list [2, 3]) \<and>
   cells (snd (the (compile_progress_heap demo_format indent_spaces demo_heap 0 1 (Some 28)
     (Some char_cost)))) 3 = Some (Episode_object (pending_episode 2))"
proof -
  have wf: "\<forall>p\<in>dom (cells demo_heap). p < next_addr demo_heap"
    by (simp add: demo_heap_def)
  have hist: "cells demo_heap 1 = Some (Episode_list [2, 3])"
    by (simp add: demo_heap_def)
  have eps: "map (cells demo_heap) [2, 3] =
               map (\<lambda>episode. Some (Episode_object episode)) two_episodes"
    by (simp add: demo_heap_def two_episodes_def)
  have digest: "compile_progress demo_format indent_spaces two_episodes (Some 28) (Some char_cost) =
     Inr (''* Step 1: full'' @ [newline, newline] @ ''* Step 2: full'')"
    by code_simp
  have dom: "0 \<in> dom (cells demo_heap)" "1 \<in> dom (cells demo_heap)" "3 \<in> dom (cells demo_heap)"
    by (simp_all add: demo_heap_def)
  have at: "cells demo_heap 0 = Some (Other_object ''component'')"
    "cells demo_heap 3 = Some (Episode_object (pending_episode 2))"
    by (simp_all add: demo_heap_def)
  from compile_progress_reads_only [OF wf hist eps, of demo_format indent_spaces 0 "Some 28" "Some char_cost"]
  obtain h' h'' where call: "compile_progress_heap demo_format indent_spaces demo_heap 0 1 (Some 28)
        (Some char_cost) =
      Some (compile_progress demo_format indent_spaces two_episodes (Some 28) (Some char_cost), h')"
    and again: "compile_progress_heap demo_format indent_spaces h' 0 1 (Some 28)
        (Some char_cost) =
      Some (compile_progress demo_format indent_spaces two_episodes (Some 28) (Some char_cost), h'')"
    and same: "\<forall>p\<in>dom (cells demo_heap).
                 cells h' p = cells demo_heap p \<and> cells h'' p = cells demo_heap p"
    by (elim exE conjE) (rule that)
  from same dom have "cells h' 0 = cells demo_heap 0" "cells h' 1 = cells demo_heap 1"
    "cells h' 3 = cells demo_heap 3" by blast+
  with call digest hist at show ?thesis by simp
qed

end
